theory Spec2Isabelle
  imports Complex_Main
begin

section \<open>Closed-caption paragraph reconstruction (src/common/cc_parser.py)\<close>

text \<open>
  A shallow embedding of \<^verbatim>\<open>load_data\<close> and \<^verbatim>\<open>parse_cc\<close>.

  Python values that reach \<^verbatim>\<open>parse_cc\<close> come out of \<^verbatim>\<open>json.load\<close> /
  \<^verbatim>\<open>response.json()\<close>, so they are JSON values. A Python \<^verbatim>\<open>str\<close> is modelled as a
  \<open>string\<close> whose characters stand for the code points U+0000 .. U+00FF. A dict is an
  association list read with \<open>map_of\<close> (its keys are meant to be distinct). Integers and
  floats are kept apart only because \<^verbatim>\<open>json.load\<close> does so; the one operation applied
  to a number here is the comparison \<^verbatim>\<open>== 1\<close>, so a finite float is represented by the
  rational it denotes.
\<close>

subsection \<open>Values and exceptions\<close>

datatype json =
    JNull
  | JBool bool
  | JInt int
  | JFloat rat
  | JStr string
  | JArr "json list"
  | JObj "(string \<times> json) list"

text \<open>
  The exception classes that can leave the modelled code. \<open>OSError\<close> also stands for
  \<^verbatim>\<open>requests.exceptions.RequestException\<close> (a subclass of \<^verbatim>\<open>IOError\<close>), \<open>ValueError\<close> for
  the JSON decode errors (subclasses of \<^verbatim>\<open>ValueError\<close>). Only \<open>RuntimeError\<close> is caught
  by the \<^verbatim>\<open>except RuntimeError\<close> clause of \<^verbatim>\<open>parse_cc\<close>.
\<close>

datatype py_error = RuntimeError | AttributeError | TypeError | ValueError | OSError

subsection \<open>Python primitives used by the module\<close>

text \<open>\<^verbatim>\<open>str.isspace\<close> on one character, for the code points below 256.\<close>

definition isspace :: "char \<Rightarrow> bool" where
  "isspace c \<longleftrightarrow>
     c \<in> set [CHR 0x09, CHR 0x0A, CHR 0x0B, CHR 0x0C, CHR 0x0D,
              CHR 0x1C, CHR 0x1D, CHR 0x1E, CHR 0x1F, CHR 0x20, CHR 0x85, CHR 0xA0]"

text \<open>\<^verbatim>\<open>s.strip()\<close>: leading and trailing whitespace removed.\<close>

definition lstrip :: "string \<Rightarrow> string" where
  "lstrip s = dropWhile isspace s"

definition rstrip :: "string \<Rightarrow> string" where
  "rstrip s = rev (dropWhile isspace (rev s))"

definition strip :: "string \<Rightarrow> string" where
  "strip s = rstrip (lstrip s)"

text \<open>\<^verbatim>\<open>sep.join(xs)\<close> for a list of strings.\<close>

fun join :: "string \<Rightarrow> string list \<Rightarrow> string" where
  "join sep [] = []"
| "join sep [x] = x"
| "join sep (x # y # ys) = x @ sep @ join sep (y # ys)"

text \<open>\<^verbatim>\<open>d.get(key, default)\<close> and \<^verbatim>\<open>d.get(key)\<close> (the latter gives \<^verbatim>\<open>None\<close>).\<close>

definition dict_get :: "(string \<times> json) list \<Rightarrow> string \<Rightarrow> json \<Rightarrow> json" where
  "dict_get d k dflt = (case map_of d k of None \<Rightarrow> dflt | Some v \<Rightarrow> v)"

text \<open>
  What a \<^verbatim>\<open>for\<close> loop or a generator iterates over: the items of a list, the keys of
  a dict, the one-character strings of a string; \<^verbatim>\<open>None\<close>, booleans and numbers are
  not iterable.
\<close>

fun py_iter :: "json \<Rightarrow> py_error + json list" where
  "py_iter (JArr xs) = Inr xs"
| "py_iter (JObj d) = Inr (map (\<lambda>kv. JStr (fst kv)) d)"
| "py_iter (JStr s) = Inr (map (\<lambda>c. JStr [c]) s)"
| "py_iter JNull = Inl TypeError"
| "py_iter (JBool b) = Inl TypeError"
| "py_iter (JInt n) = Inl TypeError"
| "py_iter (JFloat r) = Inl TypeError"

text \<open>\<^verbatim>\<open>x == 1\<close>, where \<open>None\<close> is the \<^verbatim>\<open>None\<close> of a missing key.\<close>

fun py_eq_1 :: "json option \<Rightarrow> bool" where
  "py_eq_1 (Some (JInt n)) = (n = 1)"
| "py_eq_1 (Some (JBool b)) = b"
| "py_eq_1 (Some (JFloat r)) = (r = 1)"
| "py_eq_1 _ = False"

text \<open>A map over a list that stops at the first exception.\<close>

fun mapE :: "('a \<Rightarrow> py_error + 'b) \<Rightarrow> 'a list \<Rightarrow> py_error + 'b list" where
  "mapE f [] = Inr []"
| "mapE f (x # xs) =
     (case f x of
        Inl e \<Rightarrow> Inl e
      | Inr y \<Rightarrow> (case mapE f xs of Inl e \<Rightarrow> Inl e | Inr ys \<Rightarrow> Inr (y # ys)))"

subsection \<open>The outside world\<close>

text \<open>
  \<^verbatim>\<open>requests.get\<close> either raises (no connection) or gives a response with a status code
  and a body. The file system maps a path to the text of the file there; distinct path
  strings name distinct files, every existing path is a readable text file, and
  \<open>can_open_w\<close> says whether \<^verbatim>\<open>open(path, 'w')\<close> succeeds. The text of a file is the
  text handed to the file object (encoding and newline translation are below the model).
  \<open>json_loads\<close> is the parser of the \<^verbatim>\<open>json\<close> module, kept abstract.
\<close>

datatype http_outcome = ConnectionFailed | Response int string

record world =
  http_get :: "string \<Rightarrow> http_outcome"
  files :: "string \<Rightarrow> string option"
  can_open_w :: "string \<Rightarrow> bool"
  json_loads :: "string \<Rightarrow> py_error + json"

definition URL_PREFIXES :: "string list" where
  "URL_PREFIXES = [''http://'', ''https://'']"

text \<open>\<^verbatim>\<open>s.startswith(prefixes)\<close> with a tuple of prefixes.\<close>

definition startswith :: "string \<Rightarrow> string list \<Rightarrow> bool" where
  "startswith s ps = list_ex (\<lambda>p. take (length p) s = p) ps"

subsection \<open>load_data\<close>

definition load_data :: "world \<Rightarrow> string \<Rightarrow> py_error + json" where
  "load_data w source =
     (if startswith source URL_PREFIXES then
        (case http_get w source of
           ConnectionFailed \<Rightarrow> Inl OSError
         | Response s body \<Rightarrow>
             if s = 200 then json_loads w body else Inl RuntimeError)
      else
        (case files w source of
           Some content \<Rightarrow> json_loads w content
         | None \<Rightarrow> Inl RuntimeError))"

subsection \<open>The reconstruction loop of parse_cc\<close>

text \<open>
  \<^verbatim>\<open>segs = event.get("segs", [])\<close> and
  \<^verbatim>\<open>text = "".join(seg.get("utf8", "") for seg in segs)\<close>: the generator is run to its
  end first (\<^verbatim>\<open>.get\<close> on something that is not a dict raises AttributeError), then
  \<^verbatim>\<open>join\<close> refuses an item that is not a string with TypeError.
\<close>

definition seg_value :: "json \<Rightarrow> py_error + json" where
  "seg_value seg =
     (case seg of JObj d \<Rightarrow> Inr (dict_get d ''utf8'' (JStr [])) | _ \<Rightarrow> Inl AttributeError)"

definition as_str :: "json \<Rightarrow> py_error + string" where
  "as_str v = (case v of JStr s \<Rightarrow> Inr s | _ \<Rightarrow> Inl TypeError)"

definition event_text :: "json \<Rightarrow> py_error + string" where
  "event_text event =
     (case event of
        JObj d \<Rightarrow>
          (case py_iter (dict_get d ''segs'' (JArr [])) of
             Inl e \<Rightarrow> Inl e
           | Inr segs \<Rightarrow>
               (case mapE seg_value segs of
                  Inl e \<Rightarrow> Inl e
                | Inr vs \<Rightarrow>
                    (case mapE as_str vs of
                       Inl e \<Rightarrow> Inl e
                     | Inr ts \<Rightarrow> Inr (join [] ts))))
      | _ \<Rightarrow> Inl AttributeError)"

text \<open>\<^verbatim>\<open>event.get("aAppend") == 1\<close>; it is only evaluated on a dict.\<close>

definition aAppend :: "json \<Rightarrow> bool" where
  "aAppend event = (case event of JObj d \<Rightarrow> py_eq_1 (map_of d ''aAppend'') | _ \<Rightarrow> False)"

text \<open>
  The loop state is the pair (\<^verbatim>\<open>paragraphs\<close>, \<^verbatim>\<open>current_paragraph\<close>); \<open>step\<close> is one
  pass through the body of the \<^verbatim>\<open>for\<close> loop.
\<close>

type_synonym state = "string list \<times> string"

definition step :: "state \<Rightarrow> json \<Rightarrow> py_error + state" where
  "step st event =
     (case st of (paragraphs, current_paragraph) \<Rightarrow>
        (case event_text event of
           Inl e \<Rightarrow> Inl e
         | Inr text \<Rightarrow>
             if strip text = [] then
               (if strip current_paragraph \<noteq> []
                then Inr (paragraphs @ [strip current_paragraph], [])
                else Inr (paragraphs, current_paragraph))
             else if aAppend event then
               Inr (paragraphs, current_paragraph @ '' '' @ strip text)
             else
               Inr (if strip current_paragraph \<noteq> []
                    then paragraphs @ [strip current_paragraph]
                    else paragraphs,
                    strip text)))"

fun run_events :: "state \<Rightarrow> json list \<Rightarrow> py_error + state" where
  "run_events st [] = Inr st"
| "run_events st (event # events) =
     (case step st event of Inl e \<Rightarrow> Inl e | Inr st' \<Rightarrow> run_events st' events)"

text \<open>\<^verbatim>\<open>data.get("events", [])\<close>, as the \<^verbatim>\<open>for\<close> loop iterates it.\<close>

definition events_of :: "json \<Rightarrow> py_error + json list" where
  "events_of data =
     (case data of
        JObj d \<Rightarrow> py_iter (dict_get d ''events'' (JArr []))
      | _ \<Rightarrow> Inl AttributeError)"

text \<open>The loop followed by the flush of the remaining text (lines 183 to 210).\<close>

definition reconstruct :: "json \<Rightarrow> py_error + string list" where
  "reconstruct data =
     (case events_of data of
        Inl e \<Rightarrow> Inl e
      | Inr events \<Rightarrow>
          (case run_events ([], []) events of
             Inl e \<Rightarrow> Inl e
           | Inr (paragraphs, current_paragraph) \<Rightarrow>
               Inr (if strip current_paragraph \<noteq> []
                    then paragraphs @ [strip current_paragraph]
                    else paragraphs)))"

subsection \<open>Writing the result\<close>

text \<open>
  \<^verbatim>\<open>f.writelines(x)\<close> writes the items of \<open>x\<close> one after the other; the items of a
  string are its characters.
\<close>

definition writelines :: "string \<Rightarrow> string" where
  "writelines x = concat (map (\<lambda>c. [c]) x)"

text \<open>
  \<^verbatim>\<open>with open(path, 'w', encoding=STRING_ENCODING) as f: f.writelines(x)\<close>: raises
  OSError when the file cannot be opened, and replaces the file's text otherwise.
\<close>

definition write_text :: "world \<Rightarrow> string \<Rightarrow> string \<Rightarrow> py_error + world" where
  "write_text w path x =
     (if can_open_w w path
      then Inr (w\<lparr>files := (files w)(path \<mapsto> writelines x)\<rparr>)
      else Inl OSError)"

text \<open>
  \<^verbatim>\<open>str(out_file)\<close> for an \<^verbatim>\<open>out_file\<close> that is \<^verbatim>\<open>None\<close> or a string (the \<^verbatim>\<open>bytes\<close>
  alternative of the annotation is left out).
\<close>

fun str_of :: "string option \<Rightarrow> string" where
  "str_of None = ''None''"
| "str_of (Some s) = s"

subsection \<open>parse_cc\<close>

text \<open>
  The keyword arguments are an association list from names to path strings; a value is
  truthy when it is not the empty string. The result is the world after the call together with either
  the exception that left \<^verbatim>\<open>parse_cc\<close> or its return value (\<open>None\<close> for the bare
  \<^verbatim>\<open>return\<close>).
\<close>

definition parse_cc ::
  "world \<Rightarrow> string \<Rightarrow> string option \<Rightarrow> (string \<times> string) list
     \<Rightarrow> world \<times> (py_error + string list option)" where
  "parse_cc w source out_file kwargs =
     (case load_data w source of
        Inl RuntimeError \<Rightarrow> (w, Inr None)
      | Inl e \<Rightarrow> (w, Inl e)
      | Inr data \<Rightarrow>
          (case reconstruct data of
             Inl e \<Rightarrow> (w, Inl e)
           | Inr paragraphs \<Rightarrow>
               (case write_text w (str_of out_file) (join '' '' paragraphs) of
                  Inl e \<Rightarrow> (w, Inl e)
                | Inr w1 \<Rightarrow>
                    (case map_of kwargs ''output_file'' of
                       None \<Rightarrow> (w1, Inr (Some paragraphs))
                     | Some p \<Rightarrow>
                         if p \<noteq> [] then
                           (case write_text w1 p (join '' '' paragraphs) of
                              Inl e \<Rightarrow> (w1, Inl e)
                            | Inr w2 \<Rightarrow> (w2, Inr (Some paragraphs)))
                         else (w1, Inr (Some paragraphs))))))"


subsection \<open>Notions used to state the properties\<close>

text \<open>The destinations a call writes to, in the order of the writes.\<close>

definition destinations :: "string option \<Rightarrow> (string \<times> string) list \<Rightarrow> string list" where
  "destinations out_file kwargs =
     str_of out_file #
       (case map_of kwargs ''output_file'' of
          None \<Rightarrow> []
        | Some p \<Rightarrow> if p \<noteq> [] then [p] else [])"

text \<open>
  The stripped texts of the events that carry text, in event order. (An event whose text
  cannot be computed makes the loop raise; it is given no text here.)
\<close>

definition event_texts :: "json list \<Rightarrow> string list" where
  "event_texts events =
     filter (\<lambda>t. t \<noteq> [])
       (map (\<lambda>e. case event_text e of Inl _ \<Rightarrow> [] | Inr t \<Rightarrow> strip t) events)"

text \<open>A string that is not empty and neither starts nor ends with whitespace.\<close>

definition tight :: "string \<Rightarrow> bool" where
  "tight t \<longleftrightarrow> t \<noteq> [] \<and> \<not> isspace (hd t) \<and> \<not> isspace (last t)"

text \<open>
  The loop invariant: the texts \<open>ts\<close> seen so far are split into the closed groups
  \<open>gs\<close>, one per emitted paragraph, and the open group \<open>g\<close> held in the buffer.
\<close>

definition grouped :: "string list \<Rightarrow> string list list \<Rightarrow> string list \<Rightarrow> state \<Rightarrow> bool" where
  "grouped ts gs g st \<longleftrightarrow>
     (\<forall>t\<in>set ts. tight t) \<and> concat gs @ g = ts \<and> [] \<notin> set gs \<and>
     fst st = map (join '' '') gs \<and>
     (if g = [] then snd st = []
      else snd st = join '' '' g \<or> snd st = '' '' @ join '' '' g)"

subsection \<open>Concrete caption tracks and a concrete world\<close>

definition text_event :: "string \<Rightarrow> json" where
  "text_event s = JObj [(''segs'', JArr [JObj [(''utf8'', JStr s)]])]"

definition append_event :: "string \<Rightarrow> json" where
  "append_event s = JObj [(''segs'', JArr [JObj [(''utf8'', JStr s)]]), (''aAppend'', JInt 1)]"

definition break_event :: json where
  "break_event = JObj [(''segs'', JArr [])]"

definition caption_track :: "json list \<Rightarrow> json" where
  "caption_track events = JObj [(''events'', JArr events)]"

text \<open>
  A world in which the URL \<^verbatim>\<open>https://video.example/cc\<close> serves a document that parses
  to \<open>j\<close>, every other URL answers 404, no file exists yet, and every path except
  \<^verbatim>\<open>/missing/out.txt\<close> can be opened for writing.
\<close>

definition cc_url :: string where
  "cc_url = ''https://video.example/cc''"

definition world_serving :: "json \<Rightarrow> world" where
  "world_serving j =
     \<lparr> http_get = (\<lambda>u. if u = ''https://video.example/cc'' then Response 200 ''cc''
                        else Response 404 []),
       files = (\<lambda>p. None),
       can_open_w = (\<lambda>p. p \<noteq> ''/missing/out.txt''),
       json_loads = (\<lambda>s. if s = ''cc'' then Inr j else Inl ValueError) \<rparr>"

section \<open>Auxiliary facts\<close>

subsection \<open>Strings\<close>

lemma writelines_id: "writelines x = x"
  by (induction x) (simp_all add: writelines_def)

lemma join_empty_sep: "join [] ts = concat ts"
  by (induction "[] :: string" ts rule: join.induct) simp_all

lemma join_snoc: "g \<noteq> [] \<Longrightarrow> join sep (g @ [t]) = join sep g @ sep @ t"
  by (induction sep g rule: join.induct) simp_all


lemma strip_Nil: "strip [] = []"
  by (simp add: strip_def lstrip_def rstrip_def)

lemma strip_empty_iff: "strip s = [] \<longleftrightarrow> (\<forall>c\<in>set s. isspace c)"
proof -
  let ?l = "dropWhile isspace s"
  have "strip s = [] \<longleftrightarrow> (\<forall>c\<in>set ?l. isspace c)"
    by (simp add: strip_def lstrip_def rstrip_def dropWhile_eq_Nil_conv)
  also have "\<dots> \<longleftrightarrow> (\<forall>c\<in>set s. isspace c)"
  proof
    assume a: "\<forall>c\<in>set ?l. isspace c"
    show "\<forall>c\<in>set s. isspace c"
    proof (rule ccontr)
      assume "\<not> (\<forall>c\<in>set s. isspace c)"
      then have ne: "?l \<noteq> []" by (simp add: dropWhile_eq_Nil_conv)
      then have "\<not> isspace (hd ?l)" by (rule hd_dropWhile)
      moreover have "hd ?l \<in> set ?l" using ne by (rule hd_in_set)
      ultimately show False using a by blast
    qed
  next
    assume "\<forall>c\<in>set s. isspace c"
    then show "\<forall>c\<in>set ?l. isspace c" by (blast dest: set_dropWhileD)
  qed
  finally show ?thesis .
qed

lemma tight_strip: "tight t \<Longrightarrow> strip t = t"
proof -
  assume t: "tight t"
  then have l: "lstrip t = t"
    by (cases t) (simp_all add: tight_def lstrip_def)
  from t have "dropWhile isspace (rev t) = rev t"
    by (cases "rev t") (auto simp: tight_def last_rev[symmetric] hd_rev)
  then show ?thesis using l by (simp add: strip_def rstrip_def)
qed

lemma strip_tight: "strip s \<noteq> [] \<Longrightarrow> tight (strip s)"
proof -
  assume ne: "strip s \<noteq> []"
  let ?l = "dropWhile isspace s"
  let ?r = "dropWhile isspace (rev ?l)"
  have s: "strip s = rev ?r" by (simp add: strip_def lstrip_def rstrip_def)
  with ne have rne: "?r \<noteq> []" by simp
  have lne: "?l \<noteq> []"
  proof
    assume e: "?l = []"
    have "?r = []" by (simp only: e rev.simps dropWhile.simps)
    with rne show False by contradiction
  qed
  have a: "\<not> isspace (hd ?r)" using rne by (rule hd_dropWhile)
  have b: "\<not> isspace (hd ?l)" using lne by (rule hd_dropWhile)
  obtain k where k: "rev ?l = takeWhile isspace (rev ?l) @ ?r" by simp
  have "last ?r = last (rev ?l)" using rne
    by (metis last_appendR takeWhile_dropWhile_id)
  also have "\<dots> = hd ?l" using lne by (simp add: last_rev)
  finally have c: "\<not> isspace (last ?r)" using b by simp
  show ?thesis using rne a c by (simp add: tight_def s hd_rev last_rev)
qed

lemma tight_append: "tight a \<Longrightarrow> tight b \<Longrightarrow> tight (a @ m @ b)"
  by (simp add: tight_def)

lemma strip_space_tight: "tight t \<Longrightarrow> strip ('' '' @ t) = t"
proof -
  assume t: "tight t"
  have "lstrip ('' '' @ t) = lstrip t"
    by (simp add: lstrip_def isspace_def)
  then have "strip ('' '' @ t) = strip t" by (simp add: strip_def)
  then show ?thesis using t by (simp add: tight_strip)
qed

lemma tight_join: "g \<noteq> [] \<Longrightarrow> \<forall>t\<in>set g. tight t \<Longrightarrow> tight (join '' '' g)"
proof (induction "'' ''" g rule: join.induct)
  case 1 then show ?case by simp
next
  case (2 x) then show ?case by simp
next
  case (3 x y ys)
  then have "tight x" "tight (join '' '' (y # ys))" by simp_all
  then show ?case using tight_append[of x "join '' '' (y # ys)" "'' ''"] by simp
qed


subsection \<open>The loop invariant\<close>

lemma event_texts_Nil: "event_texts [] = []"
  by (simp add: event_texts_def)

lemma event_texts_Cons:
  "event_texts (e # es) =
     (case event_text e of Inl _ \<Rightarrow> [] | Inr t \<Rightarrow> if strip t = [] then [] else [strip t])
     @ event_texts es"
  by (simp add: event_texts_def split: sum.splits)

lemma grouped_strip:
  assumes "grouped ts gs g (ps, cur)"
  shows "strip cur = (if g = [] then [] else join '' '' g)" and "g \<noteq> [] \<Longrightarrow> tight (join '' '' g)"
proof -
  have tg: "\<forall>t\<in>set g. tight t" using assms by (auto simp: grouped_def)
  show j: "g \<noteq> [] \<Longrightarrow> tight (join '' '' g)" using tg by (simp add: tight_join)
  show "strip cur = (if g = [] then [] else join '' '' g)"
  proof (cases "g = []")
    case True
    then show ?thesis using assms by (simp add: grouped_def strip_Nil)
  next
    case False
    then have "cur = join '' '' g \<or> cur = '' '' @ join '' '' g"
      using assms by (simp add: grouped_def)
    then show ?thesis using False j tight_strip strip_space_tight by auto
  qed
qed

lemma step_grouped:
  assumes inv: "grouped ts gs g st" and st: "step st e = Inr st'"
  shows "\<exists>gs' g'. grouped (ts @ event_texts [e]) gs' g' st'"
proof -
  obtain ps cur where [simp]: "st = (ps, cur)" by (cases st)
  from st obtain t where t: "event_text e = Inr t"
    by (auto simp: step_def split: sum.splits)
  have sc: "strip cur = (if g = [] then [] else join '' '' g)"
    using grouped_strip(1)[of ts gs g ps cur] inv by simp
  have jt: "g \<noteq> [] \<Longrightarrow> join '' '' g \<noteq> []"
    using grouped_strip(2)[of ts gs g ps cur] inv by (auto simp: tight_def)
  show ?thesis
  proof (cases "strip t = []")
    case True
    then have et: "event_texts [e] = []" using t by (simp add: event_texts_Cons event_texts_Nil)
    show ?thesis
    proof (cases "g = []")
      case True
      with \<open>strip t = []\<close> st t sc have "st' = st" by (simp add: step_def)
      then show ?thesis using inv et by auto
    next
      case False
      with \<open>strip t = []\<close> st t sc jt have "st' = (ps @ [join '' '' g], [])" by (simp add: step_def)
      then have "grouped (ts @ event_texts [e]) (gs @ [g]) [] st'"
        using inv et False by (simp add: grouped_def)
      then show ?thesis by blast
    qed
  next
    case False
    then have et: "event_texts [e] = [strip t]" using t by (simp add: event_texts_Cons event_texts_Nil)
    have tt: "tight (strip t)" using False by (rule strip_tight)
    show ?thesis
    proof (cases "aAppend e")
      case True
      with False st t have s': "st' = (ps, cur @ '' '' @ strip t)" by (simp add: step_def)
      have "grouped (ts @ event_texts [e]) gs (g @ [strip t]) st'"
      proof (cases "g = []")
        case True
        then show ?thesis using inv et tt s' by (simp add: grouped_def)
      next
        case False
        then show ?thesis using inv et tt s' by (auto simp: grouped_def join_snoc)
      qed
      then show ?thesis by blast
    next
      case na: False
      show ?thesis
      proof (cases "g = []")
        case True
        with na False st t sc have "st' = (ps, strip t)" by (simp add: step_def)
        then have "grouped (ts @ event_texts [e]) gs [strip t] st'"
          using inv et tt True by (simp add: grouped_def)
        then show ?thesis by blast
      next
        case g: False
        with na False st t sc jt have "st' = (ps @ [join '' '' g], strip t)" by (simp add: step_def)
        then have "grouped (ts @ event_texts [e]) (gs @ [g]) [strip t] st'"
          using inv et tt g by (simp add: grouped_def)
        then show ?thesis by blast
      qed
    qed
  qed
qed

lemma event_texts_append1: "event_texts (e # es) = event_texts [e] @ event_texts es"
  by (simp add: event_texts_def)

lemma run_events_grouped:
  "grouped ts gs g st \<Longrightarrow> run_events st es = Inr st' \<Longrightarrow>
     \<exists>gs' g'. grouped (ts @ event_texts es) gs' g' st'"
proof (induction es arbitrary: ts gs g st)
  case Nil
  then show ?case by (auto simp: event_texts_Nil)
next
  case (Cons e es)
  from Cons.prems(2) obtain st1 where s1: "step st e = Inr st1" and r: "run_events st1 es = Inr st'"
    by (auto split: sum.splits)
  from step_grouped[OF Cons.prems(1) s1] obtain gs1 g1
    where "grouped (ts @ event_texts [e]) gs1 g1 st1" by blast
  from Cons.IH[OF this r] show ?case
    by (simp add: event_texts_append1[of e es])
qed




subsection \<open>parse_cc around the loop\<close>

lemma write_text_ok:
  "can_open_w w p \<Longrightarrow> write_text w p x = Inr (w\<lparr>files := (files w)(p \<mapsto> x)\<rparr>)"
  by (simp add: write_text_def writelines_id)

lemma write_text_fails: "\<not> can_open_w w p \<Longrightarrow> write_text w p x = Inl OSError"
  by (simp add: write_text_def)

lemma parse_cc_unavailable:
  "load_data w source = Inl RuntimeError \<Longrightarrow> parse_cc w source out_file kwargs = (w, Inr None)"
  by (simp add: parse_cc_def)

text \<open>
  Exceptions other than RuntimeError are not caught: a request that fails below HTTP, or
  a body that is not JSON, leaves \<^verbatim>\<open>parse_cc\<close> as the exception that \<^verbatim>\<open>load_data\<close> let
  through.
\<close>

lemma parse_cc_load_raises:
  "load_data w source = Inl e \<Longrightarrow> e \<noteq> RuntimeError \<Longrightarrow>
     parse_cc w source out_file kwargs = (w, Inl e)"
  by (cases e) (simp_all add: parse_cc_def)

lemma load_data_connection_failed:
  "startswith source URL_PREFIXES \<Longrightarrow> http_get w source = ConnectionFailed \<Longrightarrow>
     load_data w source = Inl OSError"
  by (simp add: load_data_def)

lemma parse_cc_loaded:
  assumes "load_data w source = Inr data" and "reconstruct data = Inr ps"
  shows "parse_cc w source out_file kwargs =
     (if can_open_w w (str_of out_file) then
        (case map_of kwargs ''output_file'' of
           None \<Rightarrow> (w\<lparr>files := (files w)(str_of out_file \<mapsto> join '' '' ps)\<rparr>, Inr (Some ps))
         | Some p \<Rightarrow>
             if p \<noteq> [] then
               if can_open_w w p then
                 (w\<lparr>files := (files w)(str_of out_file \<mapsto> join '' '' ps, p \<mapsto> join '' '' ps)\<rparr>,
                  Inr (Some ps))
               else (w\<lparr>files := (files w)(str_of out_file \<mapsto> join '' '' ps)\<rparr>, Inl OSError)
             else (w\<lparr>files := (files w)(str_of out_file \<mapsto> join '' '' ps)\<rparr>, Inr (Some ps)))
      else (w, Inl OSError))"
  using assms by (simp add: parse_cc_def write_text_def writelines_id split: option.splits)

lemma parse_cc_success:
  assumes "load_data w source = Inr data" and "reconstruct data = Inr ps"
    and "\<forall>p\<in>set (destinations out_file kwargs). can_open_w w p"
  shows "snd (parse_cc w source out_file kwargs) = Inr (Some ps)"
  using assms(3) by (simp add: parse_cc_loaded[OF assms(1,2)] destinations_def split: option.splits)


lemma parse_cc_result_cases:
  assumes "load_data w source = Inr data" and "reconstruct data = Inr ps"
  shows "snd (parse_cc w source out_file kwargs) = Inr (Some ps) \<or>
         snd (parse_cc w source out_file kwargs) = Inl OSError"
  by (simp add: parse_cc_loaded[OF assms] split: option.splits)


lemma reconstruct_no_events: "events_of data = Inr [] \<Longrightarrow> reconstruct data = Inr []"
  by (simp add: reconstruct_def strip_Nil)

subsection \<open>The concrete world and tracks\<close>

lemma load_world_serving: "load_data (world_serving j) cc_url = Inr j"
  by (simp add: load_data_def world_serving_def cc_url_def startswith_def URL_PREFIXES_def)

lemma can_open_world_serving: "can_open_w (world_serving j) p \<longleftrightarrow> p \<noteq> ''/missing/out.txt''"
  by (simp add: world_serving_def)

lemma files_world_serving: "files (world_serving j) p = None"
  by (simp add: world_serving_def)





subsection \<open>Single events\<close>

lemma run_events_snoc:
  "run_events st (pre @ [e]) =
     (case run_events st pre of Inl x \<Rightarrow> Inl x | Inr st' \<Rightarrow> step st' e)"
  by (induction pre arbitrary: st) (auto split: sum.splits)

lemma reachable_buffer:
  assumes "run_events ([], []) pre = Inr (ps, cur)"
  shows "cur = [] \<or> strip cur \<noteq> []"
proof -
  have "grouped [] [] [] ([], [])" by (simp add: grouped_def)
  from run_events_grouped[OF this assms] obtain gs g
    where inv: "grouped (event_texts pre) gs g (ps, cur)" by auto
  show ?thesis
  proof (cases "g = []")
    case True
    then show ?thesis using inv by (simp add: grouped_def)
  next
    case False
    then show ?thesis using grouped_strip[OF inv] by (auto simp: tight_def)
  qed
qed

lemma event_text_no_segs: "map_of d ''segs'' = None \<Longrightarrow> event_text (JObj d) = Inr []"
  by (simp add: event_text_def dict_get_def)

lemma seg_value_no_text: "map_of kv ''utf8'' = None \<Longrightarrow> seg_value (JObj kv) = Inr (JStr [])"
  by (simp add: seg_value_def dict_get_def)

lemma mapE_seg_value_no_text:
  "\<forall>sg\<in>set segs. \<exists>kv. sg = JObj kv \<and> map_of kv ''utf8'' = None \<Longrightarrow>
     mapE seg_value segs = Inr (replicate (length segs) (JStr []))"
  by (induction segs) (auto simp: seg_value_no_text)

lemma mapE_as_str_empty: "mapE as_str (replicate n (JStr [])) = Inr (replicate n [])"
  by (induction n) (simp_all add: as_str_def)

lemma join_replicate_empty: "join [] (replicate n []) = []"
  by (simp add: join_empty_sep)

lemma event_text_no_seg_text:
  "map_of d ''segs'' = Some (JArr segs) \<Longrightarrow>
   \<forall>sg\<in>set segs. \<exists>kv. sg = JObj kv \<and> map_of kv ''utf8'' = None \<Longrightarrow>
     event_text (JObj d) = Inr []"
  by (simp add: event_text_def dict_get_def mapE_seg_value_no_text mapE_as_str_empty
      join_replicate_empty)


lemma step_append:
  "event_text e = Inr t \<Longrightarrow> strip t \<noteq> [] \<Longrightarrow> aAppend e \<Longrightarrow>
     step (ps, cur) e = Inr (ps, cur @ '' '' @ strip t)"
  by (simp add: step_def)

lemma step_break:
  "event_text e = Inr t \<Longrightarrow> strip t = [] \<Longrightarrow>
     step (ps, cur) e = Inr (if strip cur \<noteq> [] then (ps @ [strip cur], []) else (ps, cur))"
  by (simp add: step_def)

lemma step_new:
  "event_text e = Inr t \<Longrightarrow> strip t \<noteq> [] \<Longrightarrow> \<not> aAppend e \<Longrightarrow>
     step (ps, cur) e = Inr (if strip cur \<noteq> [] then ps @ [strip cur] else ps, strip t)"
  by (simp add: step_def)

lemma strip_space_strip: "strip ('' '' @ strip t) = strip t"
proof (cases "strip t = []")
  case True
  have "strip '' '' = []" by (simp add: strip_empty_iff isspace_def)
  with True show ?thesis by simp
next
  case False
  then have "tight (strip t)" by (rule strip_tight)
  then show ?thesis by (rule strip_space_tight)
qed

lemma event_text_text_event: "event_text (text_event s) = Inr s"
  by (simp add: event_text_def text_event_def dict_get_def seg_value_def as_str_def)

lemma event_text_append_event: "event_text (append_event s) = Inr s"
  by (simp add: event_text_def append_event_def dict_get_def seg_value_def as_str_def)

lemma event_text_break_event: "event_text break_event = Inr []"
  by (simp add: event_text_def break_event_def dict_get_def)

lemma aAppend_append_event: "aAppend (append_event s)"
  by (simp add: aAppend_def append_event_def)

lemma aAppend_text_event: "\<not> aAppend (text_event s)"
  by (simp add: aAppend_def text_event_def)

text \<open>
  The loop reads a segment's text under the key \<^verbatim>\<open>utf8\<close>; a segment that carries its
  text under another key, such as \<^verbatim>\<open>text\<close>, counts as empty.
\<close>

lemma segment_text_key:
  "event_text (JObj [(''segs'', JArr [JObj [(''text'', JStr ''Hello'')]])]) = Inr []"
  by (simp add: event_text_def dict_get_def seg_value_def as_str_def)

section \<open>Properties of parse_cc\<close>

subsection \<open>Source unavailable\<close>

text \<open>
  C2. When \<^verbatim>\<open>load_data\<close> raises its RuntimeError (a response whose status is not 200,
  or a source that is neither a URL nor an existing file), \<^verbatim>\<open>parse_cc\<close> raises nothing,
  returns \<^verbatim>\<open>None\<close>, and leaves the world as it was: no reconstruction, no file written.
\<close>

theorem parse_cc_source_unavailable:
  "(load_data w source = Inl RuntimeError \<longrightarrow>
      parse_cc w source out_file kwargs = (w, Inr None)) \<and>
   (startswith source URL_PREFIXES \<and> http_get w source = Response s body \<and> s \<noteq> 200 \<longrightarrow>
      load_data w source = Inl RuntimeError) \<and>
   (\<not> startswith source URL_PREFIXES \<and> files w source = None \<longrightarrow>
      load_data w source = Inl RuntimeError)"
  by (simp add: parse_cc_unavailable load_data_def)

theorem parse_cc_source_unavailable_witness:
  "startswith ''https://video.example/gone'' URL_PREFIXES \<and>
   http_get (world_serving JNull) ''https://video.example/gone'' = Response 404 [] \<and>
   (404 :: int) \<noteq> 200 \<and>
   load_data (world_serving JNull) ''https://video.example/gone'' = Inl RuntimeError \<and>
   parse_cc (world_serving JNull) ''https://video.example/gone'' (Some ''out.txt'') []
     = (world_serving JNull, Inr None) \<and>
   \<not> startswith ''captions.json3'' URL_PREFIXES \<and>
   files (world_serving JNull) ''captions.json3'' = None \<and>
   load_data (world_serving JNull) ''captions.json3'' = Inl RuntimeError \<and>
   parse_cc (world_serving JNull) ''captions.json3'' None [] = (world_serving JNull, Inr None)"
proof -
  have u: "startswith ''https://video.example/gone'' URL_PREFIXES"
    by (simp add: startswith_def URL_PREFIXES_def)
  have g: "http_get (world_serving JNull) ''https://video.example/gone'' = Response 404 []"
    by (simp add: world_serving_def)
  have n: "(404 :: int) \<noteq> 200" by simp
  note t1 = parse_cc_source_unavailable[where w="world_serving JNull"
      and source="''https://video.example/gone''" and out_file="Some ''out.txt''" and kwargs="[]"
      and s=404 and body="[]"]
  from t1 u g n
  have h: "load_data (world_serving JNull) ''https://video.example/gone'' = Inl RuntimeError"
    by blast
  with t1 have a: "parse_cc (world_serving JNull) ''https://video.example/gone'' (Some ''out.txt'') []
     = (world_serving JNull, Inr None)" by blast
  have v: "\<not> startswith ''captions.json3'' URL_PREFIXES"
    by (simp add: startswith_def URL_PREFIXES_def)
  have f: "files (world_serving JNull) ''captions.json3'' = None" by (rule files_world_serving)
  note t2 = parse_cc_source_unavailable[where w="world_serving JNull"
      and source="''captions.json3''" and out_file=None and kwargs="[]"]
  from t2 v f
  have k: "load_data (world_serving JNull) ''captions.json3'' = Inl RuntimeError" by blast
  with t2 have b: "parse_cc (world_serving JNull) ''captions.json3'' None []
     = (world_serving JNull, Inr None)" by blast
  show ?thesis using u g n h a v f k b by blast
qed

subsection \<open>No events\<close>

text \<open>
  C7. When the loaded document has zero events, the loop builds the empty paragraph
  list; whenever \<^verbatim>\<open>parse_cc\<close> returns a value it is that empty list, and it does return
  it when its destinations can be opened.
\<close>

theorem parse_cc_zero_events:
  "load_data w source = Inr data \<and> events_of data = Inr [] \<longrightarrow>
     reconstruct data = Inr [] \<and>
     (\<forall>r. snd (parse_cc w source out_file kwargs) = Inr r \<longrightarrow> r = Some []) \<and>
     ((\<forall>p\<in>set (destinations out_file kwargs). can_open_w w p) \<longrightarrow>
        snd (parse_cc w source out_file kwargs) = Inr (Some []))"
proof (intro impI, elim conjE)
  assume l: "load_data w source = Inr data" and e: "events_of data = Inr []"
  have r: "reconstruct data = Inr []" using e by (rule reconstruct_no_events)
  have a: "\<forall>r. snd (parse_cc w source out_file kwargs) = Inr r \<longrightarrow> r = Some []"
    using parse_cc_result_cases[OF l r, of out_file kwargs] by auto
  have b: "(\<forall>p\<in>set (destinations out_file kwargs). can_open_w w p) \<longrightarrow>
        snd (parse_cc w source out_file kwargs) = Inr (Some [])"
    using parse_cc_success[OF l r] by blast
  show "reconstruct data = Inr [] \<and>
     (\<forall>r. snd (parse_cc w source out_file kwargs) = Inr r \<longrightarrow> r = Some []) \<and>
     ((\<forall>p\<in>set (destinations out_file kwargs). can_open_w w p) \<longrightarrow>
        snd (parse_cc w source out_file kwargs) = Inr (Some []))"
    using r a b by blast
qed

theorem parse_cc_zero_events_witness:
  "load_data (world_serving (caption_track [])) cc_url = Inr (caption_track []) \<and>
   events_of (caption_track []) = Inr [] \<and>
   snd (parse_cc (world_serving (caption_track [])) cc_url (Some ''out.txt'') []) = Inr (Some [])"
proof -
  have l: "load_data (world_serving (caption_track [])) cc_url = Inr (caption_track [])"
    by (rule load_world_serving)
  have e: "events_of (caption_track []) = Inr []"
    by (simp add: events_of_def caption_track_def dict_get_def)
  have d: "\<forall>p\<in>set (destinations (Some ''out.txt'') []). can_open_w (world_serving (caption_track [])) p"
    by (simp add: destinations_def can_open_world_serving)
  from parse_cc_zero_events[where w="world_serving (caption_track [])" and source=cc_url
      and data="caption_track []" and out_file="Some ''out.txt''" and kwargs="[]"] l e d
  show ?thesis by blast
qed

subsection \<open>Write failures\<close>





subsection \<open>What the paragraphs are made of\<close>




subsection \<open>The three kinds of event\<close>

text \<open>
  C4. An event whose text is not empty after stripping and whose \<^verbatim>\<open>aAppend\<close> equals 1
  leaves the paragraph list as it is and appends one space and the stripped text to the
  buffer, in any state and so in every state the loop reaches; with an empty buffer the
  buffer becomes a space followed by the text, and stripping that gives the text back.
  The stream Hello, there(append) yields the single paragraph \<^verbatim>\<open>Hello there\<close>, and
  the stream of the one event there(append) yields \<^verbatim>\<open>there\<close>.
\<close>

theorem parse_cc_append_event:
  "(event_text e = Inr t \<and> strip t \<noteq> [] \<and> aAppend e \<longrightarrow>
      step (ps, cur) e = Inr (ps, cur @ '' '' @ strip t) \<and>
      (\<forall>pre. run_events ([], []) pre = Inr (ps, cur) \<longrightarrow>
         run_events ([], []) (pre @ [e]) = Inr (ps, cur @ '' '' @ strip t)) \<and>
      step (ps, []) e = Inr (ps, '' '' @ strip t) \<and>
      strip ('' '' @ strip t) = strip t) \<and>
   snd (parse_cc (world_serving (caption_track [text_event ''Hello'', append_event ''there'']))
          cc_url (Some ''out.txt'') []) = Inr (Some [''Hello there'']) \<and>
   snd (parse_cc (world_serving (caption_track [append_event ''there'']))
          cc_url (Some ''out.txt'') []) = Inr (Some [''there''])"
proof -
  have "snd (parse_cc (world_serving (caption_track [text_event ''Hello'', append_event ''there'']))
          cc_url (Some ''out.txt'') []) = Inr (Some [''Hello there''])"
    by code_simp
  moreover
  have "snd (parse_cc (world_serving (caption_track [append_event ''there'']))
          cc_url (Some ''out.txt'') []) = Inr (Some [''there''])"
    by code_simp
  ultimately show ?thesis
    using strip_space_strip[of t] by (simp add: step_append run_events_snoc)
qed

theorem parse_cc_append_event_witness:
  "event_text (append_event ''there'') = Inr ''there'' \<and> strip ''there'' \<noteq> [] \<and>
   aAppend (append_event ''there'') \<and>
   run_events ([], []) [text_event ''Hello''] = Inr ([], ''Hello'') \<and>
   run_events ([], []) ([text_event ''Hello''] @ [append_event ''there''])
     = Inr ([], ''Hello'' @ '' '' @ strip ''there'')"
proof -
  have a: "event_text (append_event ''there'') = Inr ''there''"
    by (rule event_text_append_event)
  have b: "strip ''there'' \<noteq> []" by code_simp
  have c: "aAppend (append_event ''there'')" by (rule aAppend_append_event)
  have d: "run_events ([], []) [text_event ''Hello''] = Inr ([], ''Hello'')" by code_simp
  from parse_cc_append_event[where e="append_event ''there''" and t="''there''" and ps="[]"
      and cur="''Hello''"] a b c d
  have "run_events ([], []) ([text_event ''Hello''] @ [append_event ''there''])
     = Inr ([], ''Hello'' @ '' '' @ strip ''there'')" by blast
  with a b c d show ?thesis by blast
qed

text \<open>
  C5. An event whose text is empty after stripping is a break: the stripped buffer is
  emitted exactly when it is not empty, no text is added, and in every state the loop
  reaches the buffer is empty afterwards. An event without \<^verbatim>\<open>segs\<close>, and an event whose
  segments all lack \<^verbatim>\<open>utf8\<close>, have the empty text (a segment without \<^verbatim>\<open>utf8\<close> gives the
  empty string) and raise nothing. The streams Hello, break, World and Hello, three
  spaces, World both yield the paragraphs \<^verbatim>\<open>Hello\<close> and \<^verbatim>\<open>World\<close>.
\<close>

theorem parse_cc_break_event:
  "(event_text e = Inr t \<and> strip t = [] \<longrightarrow>
      step (ps, cur) e
        = Inr (if strip cur \<noteq> [] then (ps @ [strip cur], []) else (ps, cur)) \<and>
      (\<forall>pre. run_events ([], []) pre = Inr (ps, cur) \<longrightarrow>
         run_events ([], []) (pre @ [e])
           = Inr (if strip cur \<noteq> [] then ps @ [strip cur] else ps, []))) \<and>
   (map_of d ''segs'' = None \<longrightarrow> event_text (JObj d) = Inr []) \<and>
   (map_of kv ''utf8'' = None \<longrightarrow> seg_value (JObj kv) = Inr (JStr [])) \<and>
   (map_of d ''segs'' = Some (JArr segs) \<and>
    (\<forall>sg\<in>set segs. \<exists>kv. sg = JObj kv \<and> map_of kv ''utf8'' = None) \<longrightarrow>
      event_text (JObj d) = Inr []) \<and>
   snd (parse_cc (world_serving (caption_track [text_event ''Hello'', break_event, text_event ''World'']))
          cc_url (Some ''out.txt'') []) = Inr (Some [''Hello'', ''World'']) \<and>
   snd (parse_cc (world_serving (caption_track [text_event ''Hello'', text_event ''   '', text_event ''World'']))
          cc_url (Some ''out.txt'') []) = Inr (Some [''Hello'', ''World''])"
proof -
  have a: "event_text e = Inr t \<and> strip t = [] \<longrightarrow>
      step (ps, cur) e
        = Inr (if strip cur \<noteq> [] then (ps @ [strip cur], []) else (ps, cur)) \<and>
      (\<forall>pre. run_events ([], []) pre = Inr (ps, cur) \<longrightarrow>
         run_events ([], []) (pre @ [e])
           = Inr (if strip cur \<noteq> [] then ps @ [strip cur] else ps, []))"
  proof (intro impI conjI allI, goal_cases)
    case 1
    then show ?case by (simp add: step_break)
  next
    case (2 pre)
    from reachable_buffer[OF 2(2)] have "cur = [] \<or> strip cur \<noteq> []" .
    then show ?case using 2 by (auto simp: run_events_snoc step_break strip_Nil)
  qed
  have b: "map_of d ''segs'' = None \<longrightarrow> event_text (JObj d) = Inr []"
    by (simp add: event_text_no_segs)
  have c: "map_of kv ''utf8'' = None \<longrightarrow> seg_value (JObj kv) = Inr (JStr [])"
    by (simp add: seg_value_no_text)
  have d: "map_of d ''segs'' = Some (JArr segs) \<and>
    (\<forall>sg\<in>set segs. \<exists>kv. sg = JObj kv \<and> map_of kv ''utf8'' = None) \<longrightarrow>
      event_text (JObj d) = Inr []"
    using event_text_no_seg_text[of d segs] by blast
  have e: "snd (parse_cc (world_serving (caption_track [text_event ''Hello'', break_event, text_event ''World'']))
          cc_url (Some ''out.txt'') []) = Inr (Some [''Hello'', ''World''])"
    by code_simp
  have f: "snd (parse_cc (world_serving (caption_track [text_event ''Hello'', text_event ''   '', text_event ''World'']))
          cc_url (Some ''out.txt'') []) = Inr (Some [''Hello'', ''World''])"
    by code_simp
  show ?thesis using a b c d e f by blast
qed

theorem parse_cc_break_event_witness:
  "event_text break_event = Inr [] \<and> strip [] = [] \<and>
   run_events ([], []) [text_event ''Hello''] = Inr ([], ''Hello'') \<and>
   step ([], ''Hello'') break_event = Inr ([''Hello''], []) \<and>
   run_events ([], []) ([text_event ''Hello''] @ [break_event]) = Inr ([''Hello''], []) \<and>
   event_text (JObj [(''aAppend'', JInt 1)]) = Inr [] \<and>
   seg_value (JObj [(''tOffsetMs'', JInt 0)]) = Inr (JStr []) \<and>
   event_text (JObj [(''segs'', JArr [JObj [(''tOffsetMs'', JInt 0)]])]) = Inr []"
proof -
  have a: "event_text break_event = Inr []" by (rule event_text_break_event)
  have b: "strip [] = []" by (rule strip_Nil)
  have d: "run_events ([], []) [text_event ''Hello''] = Inr ([], ''Hello'')" by code_simp
  have s: "strip ''Hello'' = ''Hello''" by code_simp
  note t = parse_cc_break_event[where e=break_event and t="[]" and ps="[]" and cur="''Hello''"]
  from t a b d
  have "run_events ([], []) ([text_event ''Hello''] @ [break_event])
     = Inr (if strip ''Hello'' \<noteq> [] then [] @ [strip ''Hello''] else [], [])" by blast
  then have r: "run_events ([], []) ([text_event ''Hello''] @ [break_event]) = Inr ([''Hello''], [])"
    by (simp add: s)
  from t a b
  have "step ([], ''Hello'') break_event
     = Inr (if strip ''Hello'' \<noteq> [] then ([] @ [strip ''Hello''], []) else ([], ''Hello''))"
    by blast
  then have st: "step ([], ''Hello'') break_event = Inr ([''Hello''], [])" by (simp add: s)
  have m1: "map_of [(''aAppend'', JInt 1)] ''segs'' = None" by simp
  from parse_cc_break_event[where d="[(''aAppend'', JInt 1)]"] m1
  have e1: "event_text (JObj [(''aAppend'', JInt 1)]) = Inr []" by blast
  have m2: "map_of [(''tOffsetMs'', JInt 0)] ''utf8'' = None" by simp
  from parse_cc_break_event[where kv="[(''tOffsetMs'', JInt 0)]"] m2
  have e2: "seg_value (JObj [(''tOffsetMs'', JInt 0)]) = Inr (JStr [])" by blast
  have m3: "map_of [(''segs'', JArr [JObj [(''tOffsetMs'', JInt 0)]])] ''segs''
              = Some (JArr [JObj [(''tOffsetMs'', JInt 0)]])" by simp
  have m4: "\<forall>sg\<in>set [JObj [(''tOffsetMs'', JInt 0)]]. \<exists>kv. sg = JObj kv \<and> map_of kv ''utf8'' = None"
    by simp
  from parse_cc_break_event[where d="[(''segs'', JArr [JObj [(''tOffsetMs'', JInt 0)]])]"
      and segs="[JObj [(''tOffsetMs'', JInt 0)]]"] m3 m4
  have e3: "event_text (JObj [(''segs'', JArr [JObj [(''tOffsetMs'', JInt 0)]])]) = Inr []"
    by blast
  show ?thesis using a b d st r e1 e2 e3 by blast
qed

text \<open>
  C6. An event whose text is not empty after stripping and whose \<^verbatim>\<open>aAppend\<close> is not 1
  first emits the stripped buffer if that is not empty, then replaces the buffer by the
  event's stripped text. The stream First, Second yields \<^verbatim>\<open>First\<close> and \<^verbatim>\<open>Second\<close>.
\<close>

theorem parse_cc_new_paragraph_event:
  "(event_text e = Inr t \<and> strip t \<noteq> [] \<and> \<not> aAppend e \<longrightarrow>
      step (ps, cur) e
        = Inr (if strip cur \<noteq> [] then ps @ [strip cur] else ps, strip t) \<and>
      (\<forall>pre. run_events ([], []) pre = Inr (ps, cur) \<longrightarrow>
         run_events ([], []) (pre @ [e])
           = Inr (if strip cur \<noteq> [] then ps @ [strip cur] else ps, strip t))) \<and>
   snd (parse_cc (world_serving (caption_track [text_event ''First'', text_event ''Second'']))
          cc_url (Some ''out.txt'') []) = Inr (Some [''First'', ''Second''])"
proof -
  have "snd (parse_cc (world_serving (caption_track [text_event ''First'', text_event ''Second'']))
          cc_url (Some ''out.txt'') []) = Inr (Some [''First'', ''Second''])"
    by code_simp
  then show ?thesis
    by (simp add: step_new run_events_snoc)
qed

theorem parse_cc_new_paragraph_event_witness:
  "event_text (text_event ''Second'') = Inr ''Second'' \<and> strip ''Second'' \<noteq> [] \<and>
   \<not> aAppend (text_event ''Second'') \<and>
   run_events ([], []) [text_event ''First''] = Inr ([], ''First'') \<and>
   run_events ([], []) ([text_event ''First''] @ [text_event ''Second''])
     = Inr ([''First''], ''Second'')"
proof -
  have a: "event_text (text_event ''Second'') = Inr ''Second''" by (rule event_text_text_event)
  have b: "strip ''Second'' \<noteq> []" by code_simp
  have c: "\<not> aAppend (text_event ''Second'')" by (rule aAppend_text_event)
  have d: "run_events ([], []) [text_event ''First''] = Inr ([], ''First'')" by code_simp
  have s: "strip ''First'' = ''First''" "strip ''Second'' = ''Second''" by code_simp+
  from parse_cc_new_paragraph_event[where e="text_event ''Second''" and t="''Second''" and ps="[]"
      and cur="''First''"] a b c d
  have "run_events ([], []) ([text_event ''First''] @ [text_event ''Second''])
     = Inr (if strip ''First'' \<noteq> [] then [] @ [strip ''First''] else [], strip ''Second'')"
    by blast
  then have "run_events ([], []) ([text_event ''First''] @ [text_event ''Second''])
     = Inr ([''First''], ''Second'')" by (simp add: s)
  with a b c d show ?thesis by blast
qed


subsection \<open>What is written\<close>





subsection \<open>The two empty outcomes\<close>




end
